theory Spec2Isabelle
  imports Complex_Main "HOL-Library.Log_Nat"
begin

section \<open>Python values, errors and the source file\<close>

text \<open>
  The pagination modules of the repository (\<^verbatim>\<open>0x00-pagination\<close>) are plain Python.
  Arguments arrive as arbitrary Python objects; the only thing the code asks of them is
  \<^verbatim>\<open>isinstance(x, int)\<close>, which holds for \<^verbatim>\<open>int\<close> and for its subclass
  \<^verbatim>\<open>bool\<close>. A float is carried as mantissa and binary exponent, a dictionary as its
  items.
\<close>

type_synonym pyfloat = "int \<times> int"

datatype pyval =
    PyInt int
  | PyBool bool
  | PyFloat pyfloat
  | PyStr string
  | PyNone
  | PyDict "(string \<times> pyval) list"

datatype error = AssertionError | OSError | TypeError | ZeroDivisionError | OverflowError

fun isinstance_int :: "pyval \<Rightarrow> bool" where
  "isinstance_int (PyInt _) = True"
| "isinstance_int (PyBool _) = True"
| "isinstance_int _ = False"

text \<open>The integer an \<^verbatim>\<open>int\<close> instance stands for in arithmetic and comparisons
  (\<^verbatim>\<open>True\<close> is 1, \<^verbatim>\<open>False\<close> is 0). Only used after \<^const>\<open>isinstance_int\<close> holds.\<close>

fun int_val :: "pyval \<Rightarrow> int" where
  "int_val (PyInt i) = i"
| "int_val (PyBool b) = (if b then 1 else 0)"
| "int_val _ = 0"

type_synonym row = "string list"

text \<open>The file \<^verbatim>\<open>Popular_Baby_Names.csv\<close> as \<^verbatim>\<open>csv.reader\<close> delivers it: the list
  of its rows, header first, or \<open>None\<close> when \<^verbatim>\<open>open\<close> fails.\<close>

type_synonym csv_file = "row list option"

section \<open>The server object\<close>

text \<open>\<^verbatim>\<open>self.__dataset\<close>; the class of \<^verbatim>\<open>3-hypermedia_del_pagination.py\<close> extends it
  with \<^verbatim>\<open>self.__indexed_dataset\<close>.\<close>

record server =
  dataset_cache :: "row list option"

record indexed_server = server +
  indexed_cache :: "(int \<rightharpoonup> row) option"

definition init :: server where
  "init = \<lparr>dataset_cache = None\<rparr>"

definition init_indexed :: indexed_server where
  "init_indexed = \<lparr>dataset_cache = None, indexed_cache = None\<rparr>"

text \<open>\<^verbatim>\<open>Server.dataset\<close>: load on first use, drop the header row, cache.\<close>

definition dataset :: "csv_file \<Rightarrow> 'a server_scheme \<Rightarrow> (error + row list) \<times> 'a server_scheme" where
  "dataset f s =
     (case dataset_cache s of
        Some ds \<Rightarrow> (Inr ds, s)
      | None \<Rightarrow>
          (case f of
             None \<Rightarrow> (Inl OSError, s)
           | Some rows \<Rightarrow> (Inr (drop 1 rows), s\<lparr>dataset_cache := Some (drop 1 rows)\<rparr>)))"

section \<open>Offset pagination\<close>

definition index_range :: "int \<Rightarrow> int \<Rightarrow> int \<times> int" where
  "index_range page page_size = ((page - 1) * page_size, page * page_size)"

text \<open>Python's \<^verbatim>\<open>xs[start:end]\<close> for integer bounds: a negative bound counts from the
  end, and every bound is clamped into \<open>0..len(xs)\<close>.\<close>

definition slice_bound :: "nat \<Rightarrow> int \<Rightarrow> nat" where
  "slice_bound n i = (if i < 0 then nat (max (int n + i) 0) else min (nat i) n)"

definition py_slice :: "'a list \<Rightarrow> int \<Rightarrow> int \<Rightarrow> 'a list" where
  "py_slice xs start end =
     (let lo = slice_bound (length xs) start; hi = slice_bound (length xs) end
      in take (hi - lo) (drop lo xs))"

definition get_page :: "csv_file \<Rightarrow> 'a server_scheme \<Rightarrow> pyval \<Rightarrow> pyval
    \<Rightarrow> (error + row list) \<times> 'a server_scheme" where
  "get_page f s page page_size =
     (if \<not> (isinstance_int page \<and> isinstance_int page_size) then (Inl AssertionError, s)
      else if \<not> (int_val page > 0 \<and> int_val page_size > 0) then (Inl AssertionError, s)
      else
        (case index_range (int_val page) (int_val page_size) of
           (start, end) \<Rightarrow>
             (case dataset f s of
                (Inl e, s') \<Rightarrow> (Inl e, s')
              | (Inr ds, s') \<Rightarrow> (Inr (py_slice ds start end), s'))))"

section \<open>Hypermedia pagination\<close>

text \<open>
  \<^verbatim>\<open>len(self.__dataset) / page_size\<close> is Python's true division of two integers: the
  IEEE binary64 number nearest to the exact quotient, ties to even, with 53 significant
  bits, gradual underflow down to \<open>2 ^ -1074\<close>, and \<^verbatim>\<open>OverflowError\<close> when the rounded
  result reaches \<open>2 ^ 1024\<close>. A float \<open>(m, p)\<close> has the value \<open>m * 2 ^ p\<close>.
\<close>

text \<open>The integer nearest to \<open>n / d\<close> for \<open>d > 0\<close>, a tie going to the even neighbour.\<close>

definition round_half_even :: "int \<Rightarrow> int \<Rightarrow> int" where
  "round_half_even n d =
     (let fl = n div d; r = n mod d
      in if 2 * r < d then fl else if d < 2 * r then fl + 1
         else if even fl then fl else fl + 1)"

text \<open>The exponent \<open>e\<close> with \<open>2 ^ e \<le> x / y < 2 ^ (e + 1)\<close>, for positive \<open>x\<close> and \<open>y\<close>,
  found from the bit lengths as CPython's \<^verbatim>\<open>long_true_divide\<close> does.\<close>

definition binade :: "int \<Rightarrow> int \<Rightarrow> int" where
  "binade x y =
     (let d = bitlen x - bitlen y
      in if (if 0 \<le> d then y * 2 ^ nat d \<le> x else y \<le> x * 2 ^ nat (- d)) then d else d - 1)"

definition py_truediv :: "int \<Rightarrow> int \<Rightarrow> error + pyfloat" where
  "py_truediv a b =
     (if b = 0 then Inl ZeroDivisionError
      else if a = 0 then Inr (0, 0)
      else
        let x = \<bar>a\<bar>; y = \<bar>b\<bar>;
            p = max (binade x y - 52) (- 1074);
            m = (if 0 \<le> p then round_half_even x (y * 2 ^ nat p)
                 else round_half_even (x * 2 ^ nat (- p)) y)
        in if 0 \<le> p \<and> 2 ^ 1024 \<le> m * 2 ^ nat p then Inl OverflowError
           else Inr (sgn a * sgn b * m, p))"

text \<open>\<^verbatim>\<open>math.ceil\<close> of a finite float.\<close>

fun math_ceil :: "pyfloat \<Rightarrow> int" where
  "math_ceil (m, p) = (if 0 \<le> p then m * 2 ^ nat p else - ((- m) div 2 ^ nat (- p)))"

text \<open>The dictionary \<^verbatim>\<open>get_hyper\<close> returns, one field per key.\<close>

record hyper =
  hyper_page_size :: int
  hyper_page :: pyval
  hyper_data :: "row list"
  hyper_next_page :: "int option"
  hyper_prev_page :: "int option"
  hyper_total_pages :: int

definition get_hyper :: "csv_file \<Rightarrow> 'a server_scheme \<Rightarrow> pyval \<Rightarrow> pyval
    \<Rightarrow> (error + hyper) \<times> 'a server_scheme" where
  "get_hyper f s page page_size =
     (case get_page f s page page_size of
        (Inl e, s') \<Rightarrow> (Inl e, s')
      | (Inr dataset_records, s') \<Rightarrow>
          (case dataset_cache s' of
             None \<Rightarrow> (Inl TypeError, s')
           | Some ds \<Rightarrow>
               (case py_truediv (int (length ds)) (int_val page_size) of
                  Inl e \<Rightarrow> (Inl e, s')
                | Inr q \<Rightarrow>
                    (let total_pages = math_ceil q
                     in (Inr \<lparr>hyper_page_size = int (length dataset_records),
                               hyper_page = page,
                               hyper_data = dataset_records,
                               hyper_next_page =
                                 (if int_val page + 1 \<le> total_pages
                                  then Some (int_val page + 1) else None),
                               hyper_prev_page =
                                 (if int_val page - 1 > 0
                                  then Some (int_val page - 1) else None),
                               hyper_total_pages = total_pages\<rparr>, s')))))"

section \<open>Deletion-resilient pagination\<close>

text \<open>\<^verbatim>\<open>Server.indexed_dataset\<close>: the dictionary comprehension over
  \<^verbatim>\<open>range(len(truncated_dataset))\<close>, built on first use and cached.\<close>

definition indexed_dataset :: "csv_file \<Rightarrow> 'a indexed_server_scheme
    \<Rightarrow> (error + (int \<rightharpoonup> row)) \<times> 'a indexed_server_scheme" where
  "indexed_dataset f s =
     (case indexed_cache s of
        Some m \<Rightarrow> (Inr m, s)
      | None \<Rightarrow>
          (case dataset f s of
             (Inl e, s') \<Rightarrow> (Inl e, s')
           | (Inr ds, s') \<Rightarrow>
               (let truncated_dataset = py_slice ds 0 1000;
                    m = fold (\<lambda>i m. m(int i \<mapsto> truncated_dataset ! i))
                          [0..<length truncated_dataset] Map.empty
                in (Inr m, s'\<lparr>indexed_cache := Some m\<rparr>))))"

text \<open>\<^verbatim>\<open>Server.get_hyper_index\<close>: annotated to return a \<^verbatim>\<open>Dict\<close>, but the body is
  \<^verbatim>\<open>pass\<close> (``This function implementation is pending''), so every call returns Python's
  \<^verbatim>\<open>None\<close> and leaves the server as it was. The default of \<open>index\<close> is \<^verbatim>\<open>None\<close>.\<close>

definition get_hyper_index :: "'a indexed_server_scheme \<Rightarrow> pyval \<Rightarrow> pyval
    \<Rightarrow> (error + pyval) \<times> 'a indexed_server_scheme" where
  "get_hyper_index s index page_size = (Inr PyNone, s)"

text \<open>\<^verbatim>\<open>sys.maxsize\<close> of a 64-bit CPython: the length of a list never exceeds it.\<close>

definition sys_maxsize :: int where
  "sys_maxsize = 2 ^ 63 - 1"

section \<open>Example data\<close>

text \<open>A file with a header and the four records \<open>A\<close>, \<open>B\<close>, \<open>C\<close>, \<open>D\<close>; a file that was
  rewritten after the first load; and a server whose index has lost key 1.\<close>

definition example_file :: csv_file where
  "example_file = Some [[''Name''], [''A''], [''B''], [''C''], [''D'']]"

definition sentinel_file :: csv_file where
  "sentinel_file = Some [[''Name''], [''sentinel'']]"

definition loaded_example :: server where
  "loaded_example = \<lparr>dataset_cache = Some [[''A''], [''B''], [''C''], [''D'']]\<rparr>"

definition indexed_example :: indexed_server where
  "indexed_example =
     \<lparr>dataset_cache = Some [[''A''], [''B''], [''C''], [''D'']],
      indexed_cache = Some [0 \<mapsto> [''A''], 1 \<mapsto> [''B''], 2 \<mapsto> [''C''], 3 \<mapsto> [''D'']]\<rparr>"

definition deleted_example :: indexed_server where
  "deleted_example =
     \<lparr>dataset_cache = Some [[''A''], [''B''], [''C''], [''D'']],
      indexed_cache = Some [0 \<mapsto> [''A''], 2 \<mapsto> [''C''], 3 \<mapsto> [''D'']]\<rparr>"

section \<open>Properties\<close>

lemma dataset_cached: "dataset_cache s = Some ds \<Longrightarrow> dataset f s = (Inr ds, s)"
  by (simp add: dataset_def)

lemma dataset_Inr_cache: "dataset f s = (Inr ds, s') \<Longrightarrow> dataset_cache s' = Some ds"
  by (auto simp: dataset_def split: option.splits)

subsection \<open>Rounding to the nearest integer and ceiling division\<close>

lemma rhe_bounds:
  "n div d \<le> round_half_even n d \<and> round_half_even n d \<le> n div d + 1"
  by (simp add: round_half_even_def Let_def)

lemma rhe_le:
  assumes "0 < d" "n \<le> t * d"
  shows "round_half_even n d \<le> t"
proof -
  have fl: "n div d \<le> t"
    using zdiv_mono1 [OF assms(2) assms(1)] assms(1) by simp
  show ?thesis
  proof (cases "n div d = t")
    case True
    have "n = d * (n div d) + n mod d" by simp
    with True have "n = d * t + n mod d" by simp
    with assms(2) have "n mod d \<le> 0" by (simp add: mult.commute)
    moreover have "0 \<le> n mod d" using assms(1) by simp
    ultimately have "n mod d = 0" by simp
    with True assms(1) show ?thesis by (simp add: round_half_even_def Let_def)
  next
    case False
    with fl have "n div d + 1 \<le> t" by simp
    with rhe_bounds [of n d] show ?thesis by linarith
  qed
qed

lemma rhe_gt:
  assumes "0 < d" "t * d + h \<le> n" "d < 2 * h"
  shows "t < round_half_even n d"
proof -
  have "t * d \<le> n" using assms by linarith
  from zdiv_mono1 [OF this assms(1)] assms(1) have fl: "t \<le> n div d" by simp
  show ?thesis
  proof (cases "n div d = t")
    case True
    have "n = d * (n div d) + n mod d" by simp
    with True have "n = d * t + n mod d" by simp
    with assms(2) have "h \<le> n mod d" by (simp add: mult.commute)
    with assms(3) have "d < 2 * (n mod d)" by linarith
    with True show ?thesis by (simp add: round_half_even_def Let_def)
  next
    case False
    with fl have "t < n div d" by simp
    with rhe_bounds [of n d] show ?thesis by linarith
  qed
qed

lemma ceil_div_unique:
  fixes n d k :: int
  assumes "0 < d" "(k - 1) * d < n" "n \<le> k * d"
  shows "- ((- n) div d) = k"
proof -
  have "(- n) div d = - k"
  proof (rule int_div_pos_eq)
    show "- n = d * (- k) + (k * d - n)" by (simp add: algebra_simps)
    show "0 \<le> k * d - n" using assms(3) by simp
    show "k * d - n < d" using assms(2) by (simp add: algebra_simps)
  qed
  then show ?thesis by simp
qed

lemma ceil_div_bounds:
  fixes n d :: int
  assumes "0 < d"
  shows "(- ((- n) div d) - 1) * d < n \<and> n \<le> - ((- n) div d) * d"
proof -
  define q r where "q = (- n) div d" and "r = (- n) mod d"
  have eq: "d * q + r = - n" unfolding q_def r_def by (rule mult_div_mod_eq)
  have r: "0 \<le> r" "r < d" using assms by (simp_all add: r_def)
  have "(- q - 1) * d = - (d * q) - d" by (simp add: algebra_simps)
  moreover have "- q * d = - (d * q)" by simp
  ultimately have "(- q - 1) * d < n \<and> n \<le> - q * d" using eq r by linarith
  then show ?thesis by (simp add: q_def)
qed

lemma rhe_scaled_ceil:
  assumes "0 < b" "0 < s" "b < 2 * s"
  shows "- ((- round_half_even (a * s) b) div s) = - ((- a) div b)"
proof -
  define k where "k = - ((- a) div b)"
  from ceil_div_bounds [OF assms(1), of a]
  have lo: "(k - 1) * b < a" and hi: "a \<le> k * b" by (simp_all add: k_def)
  have "a * s \<le> k * b * s" using hi assms(2) by (simp add: mult_right_mono)
  then have "a * s \<le> (k * s) * b" by (simp add: mult.commute mult.left_commute)
  from rhe_le [OF assms(1) this] have up: "round_half_even (a * s) b \<le> k * s" .
  from lo have "(k - 1) * b + 1 \<le> a" by simp
  then have "((k - 1) * b + 1) * s \<le> a * s" using assms(2) by (simp add: mult_right_mono)
  then have "((k - 1) * s) * b + s \<le> a * s" by (simp add: algebra_simps)
  from rhe_gt [OF assms(1) this assms(3)] have dn: "(k - 1) * s < round_half_even (a * s) b" .
  from ceil_div_unique [OF assms(2) dn up] show ?thesis by (simp add: k_def)
qed

subsection \<open>True division of integers\<close>

lemma bitlen_pos: "0 < x \<Longrightarrow> 1 \<le> bitlen x"
  using bitlen_eq_zero_iff [of x] bitlen_nonneg [of x] by linarith

lemma pow2_split:
  fixes i j :: int
  assumes "0 \<le> i" "0 \<le> j"
  shows "(2::int) ^ nat (i + j) = 2 ^ nat i * 2 ^ nat j"
  using assms by (simp add: nat_add_distrib power_add)

lemma binade_le_bitlen: "0 < y \<Longrightarrow> binade x y \<le> bitlen x - 1"
  using bitlen_pos [of y] by (simp add: binade_def Let_def)

lemma binade_lower_nonneg:
  assumes "0 < x" "0 < y" "0 \<le> binade x y"
  shows "y * 2 ^ nat (binade x y) \<le> x"
proof -
  define d where "d = bitlen x - bitlen y"
  show ?thesis
  proof (cases "if 0 \<le> d then y * 2 ^ nat d \<le> x else y \<le> x * 2 ^ nat (- d)")
    case True
    have e: "binade x y = d"
      unfolding binade_def Let_def d_def [symmetric] using True by simp
    with assms(3) True show ?thesis by simp
  next
    case False
    have e: "binade x y = d - 1"
      unfolding binade_def Let_def d_def [symmetric] using False by simp
    with assms(3) have d1: "0 \<le> d - 1" by simp
    have by1: "0 \<le> bitlen y" by (rule bitlen_nonneg)
    have eq: "bitlen x - 1 = bitlen y + (d - 1)" by (simp add: d_def)
    have split: "(2::int) ^ nat (bitlen x - 1) = 2 ^ nat (bitlen y) * 2 ^ nat (d - 1)"
      unfolding eq by (rule pow2_split [OF by1 d1])
    have "y \<le> 2 ^ nat (bitlen y)" using bitlen_bounds [OF assms(2)] by simp
    then have "y * 2 ^ nat (d - 1) \<le> 2 ^ nat (bitlen y) * 2 ^ nat (d - 1)"
      by (simp add: mult_right_mono)
    also have "\<dots> = 2 ^ nat (bitlen x - 1)" using split by simp
    also have "\<dots> \<le> x" using bitlen_bounds [OF assms(1)] by simp
    finally show ?thesis using e by simp
  qed
qed

lemma binade_lower_neg:
  assumes "0 < x" "0 < y" "binade x y < 0"
  shows "y \<le> x * 2 ^ nat (- binade x y)"
proof -
  define d where "d = bitlen x - bitlen y"
  show ?thesis
  proof (cases "if 0 \<le> d then y * 2 ^ nat d \<le> x else y \<le> x * 2 ^ nat (- d)")
    case True
    have e: "binade x y = d"
      unfolding binade_def Let_def d_def [symmetric] using True by simp
    with assms(3) True show ?thesis by simp
  next
    case False
    have e: "binade x y = d - 1"
      unfolding binade_def Let_def d_def [symmetric] using False by simp
    with assms(3) have d1: "0 \<le> 1 - d" by simp
    have bx1: "0 \<le> bitlen x - 1" using bitlen_pos [OF assms(1)] by simp
    have eq: "bitlen y = (bitlen x - 1) + (1 - d)" by (simp add: d_def)
    have split: "(2::int) ^ nat (bitlen y) = 2 ^ nat (bitlen x - 1) * 2 ^ nat (1 - d)"
      by (subst eq) (rule pow2_split [OF bx1 d1])
    have "y \<le> 2 ^ nat (bitlen y)" using bitlen_bounds [OF assms(2)] by simp
    also have "\<dots> = 2 ^ nat (bitlen x - 1) * 2 ^ nat (1 - d)" by (rule split)
    also have "\<dots> \<le> x * 2 ^ nat (1 - d)"
      using bitlen_bounds [OF assms(1)] by (simp add: mult_right_mono)
    finally show ?thesis using e by simp
  qed
qed

lemma py_truediv_pos:
  assumes "0 < a" "0 < b"
  shows "py_truediv a b =
     (let p = max (binade a b - 52) (- 1074);
          m = (if 0 \<le> p then round_half_even a (b * 2 ^ nat p)
               else round_half_even (a * 2 ^ nat (- p)) b)
      in if 0 \<le> p \<and> 2 ^ 1024 \<le> m * 2 ^ nat p then Inl OverflowError else Inr (m, p))"
  using assms by (simp add: py_truediv_def Let_def)


text \<open>Four quotients as CPython prints them: \<^verbatim>\<open>(1/3).hex()\<close> is \<^verbatim>\<open>0x1.5555555555555p-2\<close>,
  \<^verbatim>\<open>5/2\<close> is \<open>2.5\<close>, \<^verbatim>\<open>(2**53 + 1) / 1\<close> is \<open>2 ^ 53\<close> (a tie, rounded to even), and
  \<^verbatim>\<open>2**1024 / 1\<close> raises \<^verbatim>\<open>OverflowError\<close>.\<close>

lemma bitlen_numeral_simps:
  "bitlen 1 = 1"
  "bitlen (numeral (Num.Bit0 n)) = bitlen (numeral n) + 1"
  "bitlen (numeral (Num.Bit1 n)) = bitlen (numeral n) + 1"
proof -
  show "bitlen 1 = 1" by (subst compute_bitlen) simp
  show "bitlen (numeral (Num.Bit0 n)) = bitlen (numeral n) + 1"
    by (subst compute_bitlen) simp
  show "bitlen (numeral (Num.Bit1 n)) = bitlen (numeral n) + 1"
    by (subst compute_bitlen) simp
qed

lemma py_truediv_third: "py_truediv 1 3 = Inr (6004799503160661, - 54)"
  by (simp add: py_truediv_def binade_def round_half_even_def Let_def bitlen_numeral_simps)

lemma py_truediv_five_halves: "py_truediv 5 2 = Inr (5629499534213120, - 51)"
  by (simp add: py_truediv_def binade_def round_half_even_def Let_def bitlen_numeral_simps)

lemma py_truediv_tie: "py_truediv (2 ^ 53 + 1) 1 = Inr (4503599627370496, 1)"
  by (simp add: py_truediv_def binade_def round_half_even_def Let_def bitlen_numeral_simps)

lemma py_truediv_too_large: "py_truediv (2 ^ 1024) 1 = Inl OverflowError"
  by (simp add: py_truediv_def binade_def round_half_even_def Let_def bitlen_numeral_simps)

lemma py_truediv_no_overflow:
  assumes "0 \<le> a" "a < 2 ^ 63" "0 < b"
  shows "\<exists>q. py_truediv a b = Inr q"
proof (cases "a = 0")
  case True
  with assms(3) show ?thesis by (simp add: py_truediv_def)
next
  case False
  with assms(1) have a: "0 < a" by simp
  define p where "p = max (binade a b - 52) (- 1074)"
  define m where "m = (if 0 \<le> p then round_half_even a (b * 2 ^ nat p)
                 else round_half_even (a * 2 ^ nat (- p)) b)"
  have "bitlen a \<le> 63" using assms(2) a by (simp add: bitlen_le_iff_power)
  with binade_le_bitlen [OF assms(3), of a] have p10: "p \<le> 10" by (simp add: p_def)
  have "\<not> (0 \<le> p \<and> 2 ^ 1024 \<le> m * 2 ^ nat p)"
  proof
    assume h: "0 \<le> p \<and> 2 ^ 1024 \<le> m * 2 ^ nat p"
    then have m: "m = round_half_even a (b * 2 ^ nat p)" by (simp add: m_def)
    have "0 < b * 2 ^ nat p" using assms(3) by simp
    have "a div (b * 2 ^ nat p) \<le> a"
      using zdiv_mono2 [of a 1 "b * 2 ^ nat p"] a \<open>0 < b * 2 ^ nat p\<close> by simp
    with rhe_bounds [of a "b * 2 ^ nat p"] m have "m \<le> a + 1" by linarith
    with assms(2) have m63: "m \<le> 2 ^ 63" by simp
    have "nat p \<le> 10" using p10 by simp
    then have "(2::int) ^ nat p \<le> 2 ^ 10" by (intro power_increasing) simp_all
    with m63 have "m * 2 ^ nat p \<le> 2 ^ 63 * 2 ^ 10"
      by (intro mult_mono) simp_all
    with h show False by simp
  qed
  then show ?thesis
    unfolding py_truediv_pos [OF a assms(3)] Let_def p_def [symmetric] m_def [symmetric]
    by simp
qed

lemma py_truediv_ceil_exact:
  assumes "0 < a" "a < 2 ^ 53" "0 < b" "b < 2 ^ 1075"
  shows "\<exists>q. py_truediv a b = Inr q \<and> math_ceil q = - ((- a) div b)"
proof -
  define e where "e = binade a b"
  define p where "p = max (e - 52) (- 1074)"
  define s :: int where "s = 2 ^ nat (- p)"
  define m where "m = round_half_even (a * s) b"
  have e52: "e \<le> 52"
  proof (rule ccontr)
    assume "\<not> e \<le> 52"
    then have e53: "53 \<le> e" by simp
    then have "0 \<le> binade a b" by (simp add: e_def)
    from binade_lower_nonneg [OF assms(1) assms(3) this] have le: "b * 2 ^ nat e \<le> a"
      by (simp add: e_def)
    have "(2::int) ^ 53 \<le> 2 ^ nat e" using e53 by (intro power_increasing) simp_all
    also have "\<dots> \<le> b * 2 ^ nat e" using assms(3) by simp
    finally show False using le assms(2) by simp
  qed
  then have p0: "p \<le> 0" by (simp add: p_def)
  have s0: "0 < s" by (simp add: s_def)
  have bs: "b < 2 * s"
  proof (cases "e - 52 \<le> - 1074")
    case True
    then have "p = - 1074" by (simp add: p_def)
    then show ?thesis using assms(4) by (simp add: s_def)
  next
    case False
    then have p: "p = e - 52" by (simp add: p_def)
    have two_s: "2 * s = 2 ^ nat (53 - e)"
    proof -
      have "nat (53 - e) = Suc (nat (52 - e))" using e52 by simp
      then show ?thesis by (simp add: s_def p)
    qed
    show ?thesis
    proof (cases "0 \<le> e")
      case True
      then have "0 \<le> binade a b" by (simp add: e_def)
      from binade_lower_nonneg [OF assms(1) assms(3) this] have "b * 2 ^ nat e \<le> a"
        by (simp add: e_def)
      with assms(2) have lt: "b * 2 ^ nat e < 2 ^ 53" by simp
      have "(53::int) = (53 - e) + e" by simp
      have "(2::int) ^ 53 = 2 ^ nat (53 - e + e)" by simp
      also have "\<dots> = 2 ^ nat (53 - e) * 2 ^ nat e"
        using pow2_split [of "53 - e" e] True e52 by simp
      finally have "b * 2 ^ nat e < 2 ^ nat (53 - e) * 2 ^ nat e" using lt by simp
      then have "b < 2 ^ nat (53 - e)" by simp
      with two_s show ?thesis by simp
    next
      case False
      then have "binade a b < 0" by (simp add: e_def)
      from binade_lower_neg [OF assms(1) assms(3) this] have "b \<le> a * 2 ^ nat (- e)"
        by (simp add: e_def)
      also have "\<dots> < 2 ^ 53 * 2 ^ nat (- e)" using assms(2) by simp
      also have "\<dots> = 2 ^ nat (53 + (- e))"
        using pow2_split [of 53 "- e"] False by simp
      finally show ?thesis using two_s by simp
    qed
  qed
  have m_eq: "(if 0 \<le> p then round_half_even a (b * 2 ^ nat p)
                 else round_half_even (a * 2 ^ nat (- p)) b) = m"
    using p0 by (cases "p = 0") (simp_all add: m_def s_def)
  have m_le: "m \<le> a * s" 
  proof -
    have "(a * s) * 1 \<le> (a * s) * b" using assms(1,3) s0 by (intro mult_left_mono) simp_all
    then have "a * s \<le> (a * s) * b" by simp
    from rhe_le [OF assms(3) this] show ?thesis by (simp add: m_def)
  qed
  have no_ov: "\<not> (0 \<le> p \<and> 2 ^ 1024 \<le> m * 2 ^ nat p)"
  proof
    assume h: "0 \<le> p \<and> 2 ^ 1024 \<le> m * 2 ^ nat p"
    with p0 have "p = 0" by simp
    then have "s = 1" by (simp add: s_def)
    with m_le assms(2) have "m < 2 ^ 53" by simp
    with h \<open>p = 0\<close> show False by simp
  qed
  have res: "py_truediv a b = Inr (m, p)"
    unfolding py_truediv_pos [OF assms(1) assms(3)] Let_def e_def [symmetric] p_def [symmetric]
      m_eq using no_ov by simp
  have "math_ceil (m, p) = - ((- m) div s)"
    using p0 by (cases "p = 0") (simp_all add: s_def)
  also have "\<dots> = - ((- a) div b)"
    unfolding m_def by (rule rhe_scaled_ceil [OF assms(3) s0 bs])
  finally show ?thesis using res by simp
qed

lemma py_truediv_underflow:
  assumes "0 < a" "a * 2 ^ 1075 \<le> b"
  shows "py_truediv a b = Inr (0, - 1074)"
proof -
  have b: "0 < b"
  proof -
    have "0 < a * 2 ^ 1075" using assms(1) by simp
    with assms(2) show ?thesis by linarith
  qed
  define e where "e = binade a b"
  have e: "e \<le> - 1075"
  proof (cases "0 \<le> e")
    case True
    then have "0 \<le> binade a b" by (simp add: e_def)
    from binade_lower_nonneg [OF assms(1) b this] have "b * 2 ^ nat e \<le> a" by (simp add: e_def)
    moreover have "b * 1 \<le> b * 2 ^ nat e" using b by (intro mult_left_mono) simp_all
    moreover have "a * 1 < a * 2 ^ 1075" using assms(1) by (intro mult_strict_left_mono) simp_all
    ultimately show ?thesis using assms(2) by simp
  next
    case False
    then have "binade a b < 0" by (simp add: e_def)
    from binade_lower_neg [OF assms(1) b this] have "b \<le> a * 2 ^ nat (- e)" by (simp add: e_def)
    with assms(2) have "a * 2 ^ 1075 \<le> a * 2 ^ nat (- e)" by linarith
    with assms(1) have pw: "(2::int) ^ 1075 \<le> 2 ^ nat (- e)"
      by (simp only: mult_le_cancel_left_pos)
    have lt: "(1::int) < 2" by simp
    have "1075 \<le> nat (- e)"
      by (rule iffD1 [OF power_increasing_iff [OF lt]]) (rule pw)
    then show ?thesis by simp
  qed
  then have p: "max (e - 52) (- 1074) = - 1074" by simp
  have "a * 2 ^ 1075 = 2 * (a * 2 ^ 1074)" by simp
  with assms(2) have two: "2 * (a * 2 ^ 1074) \<le> b" by simp
  have n0: "0 \<le> a * 2 ^ 1074" using assms(1) by simp
  have nb: "a * 2 ^ 1074 < b" using two assms(1) n0 b by linarith
  have dv: "(a * 2 ^ 1074) div b = 0" using n0 nb by (rule div_pos_pos_trivial)
  have md: "(a * 2 ^ 1074) mod b = a * 2 ^ 1074" using n0 nb by (rule mod_pos_pos_trivial)
  have m: "round_half_even (a * 2 ^ 1074) b = 0"
    unfolding round_half_even_def Let_def dv md using two by simp
  show ?thesis
    unfolding py_truediv_pos [OF assms(1) b] Let_def e_def [symmetric] p
    using m by simp
qed

subsection \<open>Unfolding the calls\<close>

lemma dataset_not_assertion: "fst (dataset f s) \<noteq> Inl AssertionError"
  by (simp add: dataset_def split: option.splits)

lemma dataset_example: "dataset example_file init = (Inr [[''A''], [''B''], [''C''], [''D'']], loaded_example)"
  by (simp add: dataset_def example_file_def init_def loaded_example_def)

lemma py_slice_page:
  assumes "0 < p" "0 < ps"
  shows "py_slice ds ((p - 1) * ps) (p * ps) = take (nat ps) (drop (nat ((p - 1) * ps)) ds)"
proof -
  have nn: "0 \<le> (p - 1) * ps" "0 \<le> p * ps" using assms by simp_all
  have hi: "nat (p * ps) = nat ((p - 1) * ps) + nat ps"
  proof -
    have "p * ps = (p - 1) * ps + ps" by (simp add: algebra_simps)
    then show ?thesis using nn assms by (simp add: nat_add_distrib)
  qed
  show ?thesis
  proof (cases "nat ((p - 1) * ps) \<le> length ds")
    case True
    then show ?thesis using nn
      by (simp add: py_slice_def slice_bound_def Let_def hi min_def not_less)
  next
    case False
    then show ?thesis using nn
      by (simp add: py_slice_def slice_bound_def Let_def hi min_def not_less)
  qed
qed

lemma get_page_Inr:
  assumes "isinstance_int page" "isinstance_int page_size"
    and "0 < int_val page" "0 < int_val page_size"
    and "dataset f s = (Inr ds, s')"
  shows "get_page f s page page_size =
     (Inr (py_slice ds ((int_val page - 1) * int_val page_size)
             (int_val page * int_val page_size)), s')"
  using assms by (simp add: get_page_def index_range_def)

lemma get_page_invalid:
  assumes "\<not> (isinstance_int page \<and> isinstance_int page_size
             \<and> 0 < int_val page \<and> 0 < int_val page_size)"
  shows "get_page f s page page_size = (Inl AssertionError, s)"
  using assms by (auto simp: get_page_def)

lemma get_page_valid_not_assertion:
  assumes "isinstance_int page" "isinstance_int page_size"
    and "0 < int_val page" "0 < int_val page_size"
  shows "fst (get_page f s page page_size) \<noteq> Inl AssertionError"
proof (cases "dataset f s")
  case (Pair r s')
  show ?thesis
  proof (cases r)
    case (Inl e)
    with Pair dataset_not_assertion [of f s] have "e \<noteq> AssertionError" by auto
    with Pair Inl assms show ?thesis by (simp add: get_page_def index_range_def)
  next
    case (Inr ds)
    with Pair assms show ?thesis by (simp add: get_page_def index_range_def)
  qed
qed

lemma get_hyper_Inr:
  assumes "isinstance_int page" "isinstance_int page_size"
    and "0 < int_val page" "0 < int_val page_size"
    and "dataset f s = (Inr ds, s')"
    and "py_truediv (int (length ds)) (int_val page_size) = Inr q"
  shows "get_hyper f s page page_size =
     (Inr \<lparr>hyper_page_size =
             int (length (py_slice ds ((int_val page - 1) * int_val page_size)
                            (int_val page * int_val page_size))),
           hyper_page = page,
           hyper_data = py_slice ds ((int_val page - 1) * int_val page_size)
                          (int_val page * int_val page_size),
           hyper_next_page =
             (if int_val page + 1 \<le> math_ceil q then Some (int_val page + 1) else None),
           hyper_prev_page = (if int_val page - 1 > 0 then Some (int_val page - 1) else None),
           hyper_total_pages = math_ceil q\<rparr>, s')"
  using get_page_Inr [OF assms(1-5)] dataset_Inr_cache [OF assms(5)] assms(6)
  by (simp add: get_hyper_def Let_def)

lemma get_hyper_returns:
  assumes "isinstance_int page" "isinstance_int page_size"
    and "0 < int_val page" "0 < int_val page_size"
    and "dataset f s = (Inr ds, s')"
    and "int (length ds) \<le> sys_maxsize"
  shows "\<exists>q. py_truediv (int (length ds)) (int_val page_size) = Inr q"
  using py_truediv_no_overflow [of "int (length ds)" "int_val page_size"] assms(4,6)
  by (simp add: sys_maxsize_def)

subsection \<open>The index\<close>

lemma dict_comprehension:
  "fold (\<lambda>i m. m(int i \<mapsto> g i)) [0..<n] Map.empty
     = (\<lambda>k. if 0 \<le> k \<and> k < int n then Some (g (nat k)) else None)"
proof (induction n)
  case 0
  show ?case by (simp add: fun_eq_iff)
next
  case (Suc n)
  show ?case
    unfolding upt_Suc_append [OF le0] fold_append comp_def Suc.IH
    by (auto simp: fun_eq_iff)
qed

lemma py_slice_prefix: "py_slice ds 0 1000 = take 1000 ds"
  by (simp add: py_slice_def slice_bound_def Let_def min_def)

lemma indexed_dataset_fresh:
  assumes "indexed_cache s = None" "dataset f s = (Inr ds, s')"
  shows "indexed_dataset f s =
     (Inr (\<lambda>k. if 0 \<le> k \<and> k < int (min (length ds) 1000) then Some (ds ! nat k) else None),
      s'\<lparr>indexed_cache :=
           Some (\<lambda>k. if 0 \<le> k \<and> k < int (min (length ds) 1000) then Some (ds ! nat k) else None)\<rparr>)"
proof -
  have "fold (\<lambda>i m. m(int i \<mapsto> take 1000 ds ! i)) [0..<length (take 1000 ds)] Map.empty
     = (\<lambda>k. if 0 \<le> k \<and> k < int (min (length ds) 1000) then Some (ds ! nat k) else None)"
    unfolding dict_comprehension by (auto simp: fun_eq_iff)
  then show ?thesis
    using assms by (simp add: indexed_dataset_def py_slice_prefix Let_def)
qed

lemma indexed_dataset_cached:
  "indexed_cache s = Some m \<Longrightarrow> indexed_dataset f s = (Inr m, s)"
  by (simp add: indexed_dataset_def)

lemma dataset_example_indexed:
  "dataset example_file init_indexed
     = (Inr [[''A''], [''B''], [''C''], [''D'']],
        \<lparr>dataset_cache = Some [[''A''], [''B''], [''C''], [''D'']], indexed_cache = None\<rparr>)"
  by (simp add: dataset_def example_file_def init_indexed_def)


subsection \<open>The hypermedia descriptor\<close>

lemma length_py_slice_page:
  assumes "0 < p" "0 < ps"
  shows "int (length (py_slice ds ((p - 1) * ps) (p * ps))) \<le> ps"
  unfolding py_slice_page [OF assms] using assms(2) by simp

lemma py_truediv_ceil:
  assumes "0 \<le> a" "a < 2 ^ 53" "0 < b" "b < 2 ^ 1075"
  shows "\<exists>q. py_truediv a b = Inr q \<and> math_ceil q = \<lceil>real_of_int a / real_of_int b\<rceil>"
proof (cases "a = 0")
  case True
  with assms(3) show ?thesis by (simp add: py_truediv_def)
next
  case False
  with assms(1) have "0 < a" by simp
  from py_truediv_ceil_exact [OF this assms(2-4)] show ?thesis
    by (simp add: ceiling_divide_eq_div)
qed

lemma get_hyper_not_assertion:
  assumes "isinstance_int page" "isinstance_int page_size"
    and "0 < int_val page" "0 < int_val page_size"
  shows "fst (get_hyper f s page page_size) \<noteq> Inl AssertionError"
proof (cases "get_page f s page page_size")
  case (Pair r s')
  show ?thesis
  proof (cases r)
    case (Inl e)
    with Pair get_page_valid_not_assertion [OF assms, of f s] have "e \<noteq> AssertionError"
      by auto
    with Pair Inl show ?thesis by (simp add: get_hyper_def)
  next
    case (Inr recs)
    have nz: "py_truediv a (int_val page_size) \<noteq> Inl AssertionError" for a
      using assms(4) by (auto simp: py_truediv_def Let_def)
    show ?thesis
    proof (cases "dataset_cache s'")
      case None
      with Pair Inr show ?thesis by (simp add: get_hyper_def)
    next
      case (Some ds)
      show ?thesis
      proof (cases "py_truediv (int (length ds)) (int_val page_size)")
        case (Inl e)
        with nz [of "int (length ds)"] have "e \<noteq> AssertionError" by auto
        with Pair Inr Some Inl show ?thesis by (simp add: get_hyper_def)
      next
        case (Inr q)
        with Pair \<open>r = Inr recs\<close> Some show ?thesis by (simp add: get_hyper_def Let_def)
      qed
    qed
  qed
qed

lemma get_hyper_invalid:
  assumes "\<not> (isinstance_int page \<and> isinstance_int page_size
             \<and> 0 < int_val page \<and> 0 < int_val page_size)"
  shows "get_hyper f s page page_size = (Inl AssertionError, s)"
  using get_page_invalid [OF assms, of f s] by (simp add: get_hyper_def)

text \<open>Within the range of binary64 the float detour is harmless: for a dataset shorter than
  \<open>2 ^ 53\<close> and a page size below \<open>2 ^ 1075\<close>, \<^verbatim>\<open>get_hyper\<close> returns the page of
  \<^verbatim>\<open>get_page\<close> and the exact ceiling of \<open>len(Dataset) / page_size\<close>.\<close>

lemma get_hyper_total_pages_exact:
  assumes "isinstance_int page" "isinstance_int page_size"
    and "0 < int_val page" "0 < int_val page_size"
    and "dataset f s = (Inr ds, s')"
    and "int (length ds) < 2 ^ 53" and "int_val page_size < 2 ^ 1075"
  shows "\<exists>d. get_hyper f s page page_size = (Inr d, s')
     \<and> get_page f s page page_size = (Inr (hyper_data d), s')
     \<and> hyper_total_pages d = \<lceil>real (length ds) / real_of_int (int_val page_size)\<rceil>"
proof -
  have "0 \<le> int (length ds)" by simp
  from py_truediv_ceil [OF this assms(6) assms(4) assms(7)] obtain q
    where q: "py_truediv (int (length ds)) (int_val page_size) = Inr q"
      "math_ceil q = \<lceil>real_of_int (int (length ds)) / real_of_int (int_val page_size)\<rceil>"
    by blast
  from get_hyper_Inr [OF assms(1-5) q(1)] get_page_Inr [OF assms(1-5)] q(2)
  show ?thesis by simp
qed

section \<open>The claims\<close>

text \<open>
  C8. Loading is idempotent. Once a call of \<^verbatim>\<open>dataset()\<close> has returned the rows \<open>ds\<close> and
  left the server in state \<open>s'\<close>, every later call returns the same rows and leaves \<open>s'\<close>
  as it is, whatever the file holds by then (\<open>f'\<close> is arbitrary, also unreadable): the file
  is not read again. Since the state does not change, this holds for every later call.
\<close>

theorem dataset_idempotent:
  assumes "dataset f s = (Inr ds, s')"
  shows "dataset f' s' = (Inr ds, s')"
  using dataset_Inr_cache [OF assms] by (rule dataset_cached)

theorem dataset_idempotent_witness:
  "dataset example_file init = (Inr [[''A''], [''B''], [''C''], [''D'']], loaded_example)
   \<and> dataset sentinel_file loaded_example = (Inr [[''A''], [''B''], [''C''], [''D'']], loaded_example)
   \<and> dataset None loaded_example = (Inr [[''A''], [''B''], [''C''], [''D'']], loaded_example)"
proof -
  have h: "dataset example_file init = (Inr [[''A''], [''B''], [''C''], [''D'']], loaded_example)"
    by (simp add: dataset_def example_file_def init_def loaded_example_def)
  from h dataset_idempotent [OF h, of sentinel_file] dataset_idempotent [OF h, of None]
  show ?thesis by simp
qed

text \<open>
  C6. \<^verbatim>\<open>get_page\<close> fails with \<^verbatim>\<open>AssertionError\<close>, returning nothing and leaving the server
  untouched, whenever \<open>page\<close> or \<open>page_size\<close> is not an \<^verbatim>\<open>int\<close> instance or is not
  positive. For positive integers it never fails that way, and it returns a page whenever
  \<^verbatim>\<open>dataset()\<close> delivers the rows (a file that cannot be opened is the only other failure,
  and it is the loader's, not an argument error).
\<close>

theorem get_page_assertion:
  "(\<not> (isinstance_int page \<and> isinstance_int page_size
        \<and> 0 < int_val page \<and> 0 < int_val page_size)
      \<longrightarrow> get_page f s page page_size = (Inl AssertionError, s))
   \<and> (isinstance_int page \<and> isinstance_int page_size
        \<and> 0 < int_val page \<and> 0 < int_val page_size
      \<longrightarrow> fst (get_page f s page page_size) \<noteq> Inl AssertionError
          \<and> (\<forall>ds s'. dataset f s = (Inr ds, s')
                \<longrightarrow> (\<exists>r. get_page f s page page_size = (Inr r, s'))))"
proof (intro conjI impI allI)
  assume "\<not> (isinstance_int page \<and> isinstance_int page_size
        \<and> 0 < int_val page \<and> 0 < int_val page_size)"
  then show "get_page f s page page_size = (Inl AssertionError, s)"
    by (rule get_page_invalid)
next
  assume "isinstance_int page \<and> isinstance_int page_size
        \<and> 0 < int_val page \<and> 0 < int_val page_size"
  then show "fst (get_page f s page page_size) \<noteq> Inl AssertionError"
    by (intro get_page_valid_not_assertion) simp_all
next
  fix ds s'
  assume v: "isinstance_int page \<and> isinstance_int page_size
        \<and> 0 < int_val page \<and> 0 < int_val page_size"
    and d: "dataset f s = (Inr ds, s')"
  from v have "isinstance_int page" "isinstance_int page_size"
    "0 < int_val page" "0 < int_val page_size" by simp_all
  from get_page_Inr [OF this d] show "\<exists>r. get_page f s page page_size = (Inr r, s')"
    by blast
qed

theorem get_page_assertion_witness:
  "get_page example_file init (PyFloat (3, - 1)) (PyInt 10) = (Inl AssertionError, init)
   \<and> get_page example_file init (PyInt 1) (PyStr ''10'') = (Inl AssertionError, init)
   \<and> get_page example_file init (PyInt 0) (PyInt 10) = (Inl AssertionError, init)
   \<and> get_page example_file init (PyInt 1) (PyInt (- 2)) = (Inl AssertionError, init)
   \<and> fst (get_page None init (PyInt 1) (PyInt 10)) \<noteq> Inl AssertionError
   \<and> (\<exists>r. get_page example_file init (PyInt 1) (PyInt 10) = (Inr r, loaded_example))"
  using get_page_assertion [of "PyFloat (3, - 1)" "PyInt 10" example_file init]
    get_page_assertion [of "PyInt 1" "PyStr ''10''" example_file init]
    get_page_assertion [of "PyInt 0" "PyInt 10" example_file init]
    get_page_assertion [of "PyInt 1" "PyInt (- 2)" example_file init]
    get_page_assertion [of "PyInt 1" "PyInt 10" None init]
    get_page_assertion [of "PyInt 1" "PyInt 10" example_file init]
    dataset_example
  by simp

text \<open>
  C7. For positive integers \<open>page\<close> and \<open>page_size\<close>, \<^verbatim>\<open>get_page\<close> returns the rows of the
  dataset from position \<open>start\<close> up to, not including, position \<open>end\<close>, where
  \<open>(start, end) = index_range(page, page_size) = ((page - 1) * page_size, page * page_size)\<close>;
  when \<open>start\<close> is at or beyond the end of the dataset the result is the empty list and no
  error is raised.
\<close>

theorem get_page_slice:
  assumes "isinstance_int page" "isinstance_int page_size"
    and "0 < int_val page" "0 < int_val page_size"
    and "dataset f s = (Inr ds, s')"
  shows "index_range (int_val page) (int_val page_size)
           = ((int_val page - 1) * int_val page_size, int_val page * int_val page_size)
     \<and> get_page f s page page_size =
         (Inr (take (nat (int_val page * int_val page_size
                            - (int_val page - 1) * int_val page_size))
                 (drop (nat ((int_val page - 1) * int_val page_size)) ds)), s')
     \<and> (int (length ds) \<le> (int_val page - 1) * int_val page_size
          \<longrightarrow> get_page f s page page_size = (Inr [], s'))"
proof -
  have w: "int_val page * int_val page_size - (int_val page - 1) * int_val page_size
             = int_val page_size"
    by (simp add: algebra_simps)
  have g: "get_page f s page page_size =
         (Inr (take (nat (int_val page_size))
                 (drop (nat ((int_val page - 1) * int_val page_size)) ds)), s')"
    using get_page_Inr [OF assms] py_slice_page [OF assms(3,4), of ds] by simp
  have "int (length ds) \<le> (int_val page - 1) * int_val page_size
          \<Longrightarrow> drop (nat ((int_val page - 1) * int_val page_size)) ds = []"
    by simp
  with g show ?thesis unfolding w by (simp add: index_range_def)
qed

theorem get_page_slice_witness:
  "get_page (Some ([''Name''] # replicate 50 [''row''])) init (PyInt 1000) (PyInt 10)
     = (Inr [], \<lparr>dataset_cache = Some (replicate 50 [''row''])\<rparr>)
   \<and> get_page example_file init (PyInt 2) (PyInt 3) = (Inr [[''D'']], loaded_example)"
proof -
  have d: "dataset (Some ([''Name''] # replicate 50 [''row''])) init
             = (Inr (replicate 50 [''row'']), \<lparr>dataset_cache = Some (replicate 50 [''row''])\<rparr>)"
    by (simp add: dataset_def init_def)
  have a: "isinstance_int (PyInt 1000)" "isinstance_int (PyInt 10)"
    "0 < int_val (PyInt 1000)" "0 < int_val (PyInt 10)" by simp_all
  have b: "isinstance_int (PyInt 2)" "isinstance_int (PyInt 3)"
    "0 < int_val (PyInt 2)" "0 < int_val (PyInt 3)" by simp_all
  from get_page_slice [OF a d] get_page_slice [OF b dataset_example]
  show ?thesis by simp
qed

text \<open>
  C9. The first call of \<^verbatim>\<open>indexed_dataset()\<close> builds a dictionary whose keys are exactly the
  positions \<open>0 .. min(len(Dataset), 1000) - 1\<close>, each mapped to the record at that position
  of the loaded dataset, and caches it; every later call returns that cached dictionary and
  changes nothing, whatever the file holds by then.
\<close>

theorem indexed_dataset_build:
  assumes "indexed_cache s = None" "dataset f s = (Inr ds, s')"
  shows "\<exists>m. indexed_dataset f s = (Inr m, s'\<lparr>indexed_cache := Some m\<rparr>)
     \<and> dom m = {k. 0 \<le> k \<and> k < int (min (length ds) 1000)}
     \<and> (\<forall>i < min (length ds) 1000. m (int i) = Some (ds ! i))
     \<and> (\<forall>f'. indexed_dataset f' (s'\<lparr>indexed_cache := Some m\<rparr>)
            = (Inr m, s'\<lparr>indexed_cache := Some m\<rparr>))"
proof -
  define m where
    "m = (\<lambda>k. if 0 \<le> k \<and> k < int (min (length ds) 1000) then Some (ds ! nat k) else None)"
  have 1: "indexed_dataset f s = (Inr m, s'\<lparr>indexed_cache := Some m\<rparr>)"
    unfolding m_def by (rule indexed_dataset_fresh [OF assms])
  have 2: "dom m = {k. 0 \<le> k \<and> k < int (min (length ds) 1000)}"
    by (auto simp: m_def dom_def)
  have 3: "\<forall>i < min (length ds) 1000. m (int i) = Some (ds ! i)"
    by (simp add: m_def)
  have 4: "\<forall>f'. indexed_dataset f' (s'\<lparr>indexed_cache := Some m\<rparr>)
            = (Inr m, s'\<lparr>indexed_cache := Some m\<rparr>)"
    by (simp add: indexed_dataset_cached)
  from 1 2 3 4 show ?thesis by blast
qed

theorem indexed_dataset_build_witness:
  "\<exists>m. indexed_dataset example_file init_indexed
          = (Inr m, \<lparr>dataset_cache = Some [[''A''], [''B''], [''C''], [''D'']],
                     indexed_cache = Some m\<rparr>)
     \<and> dom m = {0, 1, 2, 3}
     \<and> m 0 = Some [''A''] \<and> m 1 = Some [''B''] \<and> m 2 = Some [''C''] \<and> m 3 = Some [''D'']
     \<and> indexed_dataset sentinel_file
          \<lparr>dataset_cache = Some [[''A''], [''B''], [''C''], [''D'']], indexed_cache = Some m\<rparr>
          = (Inr m, \<lparr>dataset_cache = Some [[''A''], [''B''], [''C''], [''D'']],
                     indexed_cache = Some m\<rparr>)"
proof -
  have c: "indexed_cache init_indexed = None" by (simp add: init_indexed_def)
  from indexed_dataset_build [OF c dataset_example_indexed]
  obtain m where m: "indexed_dataset example_file init_indexed
          = (Inr m, \<lparr>dataset_cache = Some [[''A''], [''B''], [''C''], [''D'']],
                     indexed_cache = Some m\<rparr>)"
     "dom m = {k. 0 \<le> k \<and> k < 4}"
     "\<forall>i < 4. m (int i) = Some ([[''A''], [''B''], [''C''], [''D'']] ! i)"
     "\<forall>f'. indexed_dataset f'
          \<lparr>dataset_cache = Some [[''A''], [''B''], [''C''], [''D'']], indexed_cache = Some m\<rparr>
          = (Inr m, \<lparr>dataset_cache = Some [[''A''], [''B''], [''C''], [''D'']],
                     indexed_cache = Some m\<rparr>)"
    by auto
  have d: "{k::int. 0 \<le> k \<and> k < 4} = {0, 1, 2, 3}" by auto
  have "m 0 = Some [''A'']" "m 1 = Some [''B'']" "m 2 = Some [''C'']" "m 3 = Some [''D'']"
    using m(3) [rule_format, of 0] m(3) [rule_format, of 1]
      m(3) [rule_format, of 2] m(3) [rule_format, of 3]
    by simp_all
  with m(1,2,4) d show ?thesis by auto
qed

text \<open>
  C10. \<^verbatim>\<open>get_hyper\<close> checks its arguments only through \<^verbatim>\<open>get_page\<close>: it fails with
  \<^verbatim>\<open>AssertionError\<close> exactly when \<open>page\<close> or \<open>page_size\<close> is not an \<^verbatim>\<open>int\<close> instance or is
  not positive, which is exactly when \<^verbatim>\<open>get_page\<close> fails that way. For positive integers
  it returns a descriptor whenever \<^verbatim>\<open>dataset()\<close> delivers the rows, however far \<open>page\<close>
  lies beyond the last page.
\<close>

theorem get_hyper_assertion:
  "(fst (get_hyper f s page page_size) = Inl AssertionError
      \<longleftrightarrow> \<not> (isinstance_int page \<and> isinstance_int page_size
             \<and> 0 < int_val page \<and> 0 < int_val page_size))
   \<and> (fst (get_hyper f s page page_size) = Inl AssertionError
      \<longleftrightarrow> fst (get_page f s page page_size) = Inl AssertionError)
   \<and> (isinstance_int page \<and> isinstance_int page_size
        \<and> 0 < int_val page \<and> 0 < int_val page_size
      \<longrightarrow> (\<forall>ds s'. dataset f s = (Inr ds, s') \<and> int (length ds) \<le> sys_maxsize
             \<longrightarrow> (\<exists>d. get_hyper f s page page_size = (Inr d, s'))))"
proof (cases "isinstance_int page \<and> isinstance_int page_size
        \<and> 0 < int_val page \<and> 0 < int_val page_size")
  case False
  from get_hyper_invalid [OF False, of f s] get_page_invalid [OF False, of f s] False
  show ?thesis by auto
next
  case True
  then have v: "isinstance_int page" "isinstance_int page_size"
    "0 < int_val page" "0 < int_val page_size" by simp_all
  have ret: "\<exists>d. get_hyper f s page page_size = (Inr d, s')"
    if d: "dataset f s = (Inr ds, s')" and l: "int (length ds) \<le> sys_maxsize" for ds s'
  proof -
    from get_hyper_returns [OF v d l] obtain q
      where "py_truediv (int (length ds)) (int_val page_size) = Inr q" ..
    from get_hyper_Inr [OF v d this] show ?thesis by blast
  qed
  from get_hyper_not_assertion [OF v, of f s] get_page_valid_not_assertion [OF v, of f s]
    True ret
  show ?thesis by blast
qed

theorem get_hyper_assertion_witness:
  "fst (get_hyper example_file init (PyNone) (PyInt 10)) = Inl AssertionError
   \<and> fst (get_hyper example_file init (PyInt 1) (PyInt 0)) = Inl AssertionError
   \<and> fst (get_page example_file init (PyInt 1) (PyInt 0)) = Inl AssertionError
   \<and> (\<exists>d. get_hyper example_file init (PyInt 1000) (PyInt 10) = (Inr d, loaded_example))"
proof -
  have l: "int (length [[''A''], [''B''], [''C''], [''D'']]) \<le> sys_maxsize"
    by (simp add: sys_maxsize_def)
  from get_hyper_assertion [of example_file init PyNone "PyInt 10"]
    get_hyper_assertion [of example_file init "PyInt 1" "PyInt 0"]
    get_hyper_assertion [of example_file init "PyInt 1000" "PyInt 10"]
    dataset_example l
  show ?thesis by auto
qed

text \<open>
  C4. For positive integers \<open>page\<close> and \<open>page_size\<close>, the \<open>page_size\<close> field of the
  descriptor returned by \<^verbatim>\<open>get_hyper\<close> is the length of its \<open>data\<close> field, and it is at
  most the requested \<open>page_size\<close>.
\<close>

theorem get_hyper_page_size:
  assumes "isinstance_int page" "isinstance_int page_size"
    and "0 < int_val page" "0 < int_val page_size"
    and "dataset f s = (Inr ds, s')" and "int (length ds) \<le> sys_maxsize"
  shows "\<exists>d. get_hyper f s page page_size = (Inr d, s')
     \<and> hyper_page_size d = int (length (hyper_data d))
     \<and> hyper_page_size d \<le> int_val page_size"
proof -
  from get_hyper_returns [OF assms] obtain q
    where "py_truediv (int (length ds)) (int_val page_size) = Inr q" ..
  from get_hyper_Inr [OF assms(1-5) this] length_py_slice_page [OF assms(3,4), of ds]
  show ?thesis by simp
qed

theorem get_hyper_page_size_witness:
  "\<exists>d. get_hyper example_file init (PyInt 2) (PyInt 3) = (Inr d, loaded_example)
     \<and> hyper_page_size d = int (length (hyper_data d))
     \<and> hyper_page_size d \<le> 3"
proof -
  have a: "isinstance_int (PyInt 2)" "isinstance_int (PyInt 3)"
    "0 < int_val (PyInt 2)" "0 < int_val (PyInt 3)" by simp_all
  have l: "int (length [[''A''], [''B''], [''C''], [''D'']]) \<le> sys_maxsize"
    by (simp add: sys_maxsize_def)
  from get_hyper_page_size [OF a dataset_example l] show ?thesis by simp
qed

text \<open>
  C3, as stated, fails beyond the last page: on the four-record dataset \<^verbatim>\<open>get_hyper(3, 2)\<close>
  returns \<open>next_page = None\<close> with \<open>total_pages = 2\<close>, and \<open>page = 3\<close> is not \<open>total_pages\<close>.
\<close>

theorem get_hyper_next_page_counterexample:
  "get_hyper example_file init (PyInt 3) (PyInt 2) =
     (Inr \<lparr>hyper_page_size = 0, hyper_page = PyInt 3, hyper_data = [],
           hyper_next_page = None, hyper_prev_page = Some 2, hyper_total_pages = 2\<rparr>,
      loaded_example)
   \<and> \<not> (hyper_next_page \<lparr>hyper_page_size = 0, hyper_page = PyInt 3, hyper_data = [],
           hyper_next_page = None, hyper_prev_page = Some 2, hyper_total_pages = 2\<rparr> = None
        \<longleftrightarrow> int_val (PyInt 3) = hyper_total_pages \<lparr>hyper_page_size = 0, hyper_page = PyInt 3,
           hyper_data = [], hyper_next_page = None, hyper_prev_page = Some 2,
           hyper_total_pages = 2\<rparr>)"
proof -
  have a: "isinstance_int (PyInt 3)" "isinstance_int (PyInt 2)"
    "0 < int_val (PyInt 3)" "0 < int_val (PyInt 2)" by simp_all
  from py_truediv_ceil_exact [of 4 2] obtain q
    where q: "py_truediv 4 2 = Inr q" "math_ceil q = 2" by auto
  then have "py_truediv (int (length [[''A''], [''B''], [''C''], [''D'']])) (int_val (PyInt 2))
      = Inr q" by simp
  from get_hyper_Inr [OF a dataset_example this] q(2)
  show ?thesis by (simp add: py_slice_def slice_bound_def)
qed

text \<open>
  C3, amended. For positive integers \<open>page\<close> and \<open>page_size\<close>, in the descriptor returned
  by \<^verbatim>\<open>get_hyper\<close> the field \<open>next_page\<close> is \<open>None\<close> if and only if \<open>page \<ge> total_pages\<close>
  (the code tests \<open>page + 1 \<le> total_pages\<close>), and \<open>prev_page\<close> is \<open>None\<close> if and only if
  \<open>page = 1\<close>.
\<close>

theorem get_hyper_next_prev:
  assumes "isinstance_int page" "isinstance_int page_size"
    and "0 < int_val page" "0 < int_val page_size"
    and "dataset f s = (Inr ds, s')" and "int (length ds) \<le> sys_maxsize"
  shows "\<exists>d. get_hyper f s page page_size = (Inr d, s')
     \<and> (hyper_next_page d = None \<longleftrightarrow> hyper_total_pages d \<le> int_val page)
     \<and> (hyper_prev_page d = None \<longleftrightarrow> int_val page = 1)"
proof -
  from get_hyper_returns [OF assms] obtain q
    where "py_truediv (int (length ds)) (int_val page_size) = Inr q" ..
  from get_hyper_Inr [OF assms(1-5) this] assms(3)
  show ?thesis by auto
qed

theorem get_hyper_next_prev_witness:
  "\<exists>d. get_hyper example_file init (PyInt 3) (PyInt 2) = (Inr d, loaded_example)
     \<and> (hyper_next_page d = None \<longleftrightarrow> hyper_total_pages d \<le> 3)
     \<and> (hyper_prev_page d = None \<longleftrightarrow> (3::int) = 1)"
proof -
  have a: "isinstance_int (PyInt 3)" "isinstance_int (PyInt 2)"
    "0 < int_val (PyInt 3)" "0 < int_val (PyInt 2)" by simp_all
  have l: "int (length [[''A''], [''B''], [''C''], [''D'']]) \<le> sys_maxsize"
    by (simp add: sys_maxsize_def)
  from get_hyper_next_prev [OF a dataset_example l] show ?thesis by simp
qed

text \<open>
  C5. The descriptor of \<^verbatim>\<open>get_hyper\<close> is to carry the page of \<^verbatim>\<open>get_page\<close> and
  \<open>total_pages = ceil(len(Dataset) / page_size)\<close>. The code takes the ceiling of a float
  quotient, and that quotient underflows: for a one-record dataset and
  \<open>page_size = 10 ^ 400\<close> the quotient is \<open>0.0\<close>, so \<open>total_pages\<close> is 0 where the ceiling
  of \<open>1 / 10 ^ 400\<close> is 1.
\<close>

theorem get_hyper_total_pages_underflow:
  "get_hyper (Some [[''Name''], [''A'']]) init (PyInt 1) (PyInt (10 ^ 400)) =
     (Inr \<lparr>hyper_page_size = 1, hyper_page = PyInt 1, hyper_data = [[''A'']],
           hyper_next_page = None, hyper_prev_page = None, hyper_total_pages = 0\<rparr>,
      \<lparr>dataset_cache = Some [[''A'']]\<rparr>)
   \<and> \<lceil>real (length [[''A'']]) / real_of_int (10 ^ 400)\<rceil> = 1"
proof -
  have a: "isinstance_int (PyInt 1)" "isinstance_int (PyInt (10 ^ 400))"
    "0 < int_val (PyInt 1)" "0 < int_val (PyInt (10 ^ 400))" by simp_all
  have d: "dataset (Some [[''Name''], [''A'']]) init
      = (Inr [[''A'']], \<lparr>dataset_cache = Some [[''A'']]\<rparr>)"
    by (simp add: dataset_def init_def)
  have "py_truediv 1 (10 ^ 400) = Inr (0, - 1074)"
    by (rule py_truediv_underflow) simp_all
  then have q: "py_truediv (int (length [[''A'']])) (int_val (PyInt (10 ^ 400)))
      = Inr (0, - 1074)" by simp
  have c: "\<lceil>real (length [[''A'']]) / real_of_int (10 ^ 400)\<rceil> = 1"
    by (simp add: ceiling_eq_iff)
  from get_hyper_Inr [OF a d q] c
  show ?thesis by (simp add: py_slice_def slice_bound_def)
qed

text \<open>
  C1. \<^verbatim>\<open>get_hyper_index\<close> is to walk the keys of the index upwards from \<open>index\<close>, skipping
  deleted ones; for the index \<open>{0: A, 2: C, 3: D}\<close> (key 1 deleted) the call
  \<^verbatim>\<open>get_hyper_index(0, 2)\<close> is to return \<open>data = [A, C]\<close>. The code returns \<^verbatim>\<open>None\<close>: its
  body is \<^verbatim>\<open>pass\<close>.
\<close>

theorem get_hyper_index_pending:
  "get_hyper_index deleted_example (PyInt 0) (PyInt 2) = (Inr PyNone, deleted_example)"
  by (simp add: get_hyper_index_def)

text \<open>
  C2. \<^verbatim>\<open>get_hyper_index\<close> is to fail with \<^verbatim>\<open>AssertionError\<close> for an index outside the key
  domain. On the index \<open>{0: A, 1: B, 2: C, 3: D}\<close> the calls with index 4 and index -1 both
  return \<^verbatim>\<open>None\<close> without failing.
\<close>

theorem get_hyper_index_no_check:
  "get_hyper_index indexed_example (PyInt 4) (PyInt 10) = (Inr PyNone, indexed_example)
   \<and> get_hyper_index indexed_example (PyInt (- 1)) (PyInt 10) = (Inr PyNone, indexed_example)"
  by (simp add: get_hyper_index_def)

end
